theory Spec2Isabelle
  imports Main "HOL-Library.Product_Lexorder" "HOL-Library.AList"
begin

section \<open>Exceptions\<close>

text \<open>
  The exceptions that the handlers of \<^verbatim>\<open>appraju.py\<close> can meet:
  \<^verbatim>\<open>ValueError\<close> (the \<^verbatim>\<open>datetime\<close> constructor on a year or month out of range),
  \<^verbatim>\<open>OverflowError\<close> (date arithmetic leaving \<^verbatim>\<open>date.min .. date.max\<close>) and the
  \<^verbatim>\<open>NotFound\<close> that \<^verbatim>\<open>get_or_404\<close> raises.
\<close>

datatype exn = ValueError | OverflowError | NotFound

section \<open>Calendar dates\<close>

text \<open>
  A \<^verbatim>\<open>datetime.date\<close> is the triple (year, month, day). Python compares dates as these
  triples, which is the lexicographic order of the product type.
\<close>

type_synonym date = "nat \<times> nat \<times> nat"

definition year_of :: "date \<Rightarrow> nat" where
  "year_of d = fst d"

definition month_of :: "date \<Rightarrow> nat" where
  "month_of d = fst (snd d)"

definition day_of :: "date \<Rightarrow> nat" where
  "day_of d = snd (snd d)"

definition isleap :: "nat \<Rightarrow> bool" where
  "isleap y = (y mod 4 = 0 \<and> (y mod 100 \<noteq> 0 \<or> y mod 400 = 0))"

definition mdays :: "nat list" where
  "mdays = [0, 31, 28, 31, 30, 31, 30, 31, 31, 30, 31, 30, 31]"

definition monthrange :: "nat \<Rightarrow> nat \<Rightarrow> nat" where
  \<comment> \<open>\<^verbatim>\<open>calendar.monthrange(year, month)[1]\<close>, for a month in 1..12\<close>
  "monthrange y m = mdays ! m + (if m = 2 \<and> isleap y then 1 else 0)"

definition mk_date :: "int \<Rightarrow> int \<Rightarrow> int \<Rightarrow> exn + date" where
  \<comment> \<open>\<^verbatim>\<open>datetime(year, month, day).date()\<close>\<close>
  "mk_date y m d =
     (if 1 \<le> y \<and> y \<le> 9999 \<and> 1 \<le> m \<and> m \<le> 12 \<and> 1 \<le> d \<and> d \<le> int (monthrange (nat y) (nat m))
      then Inr (nat y, nat m, nat d) else Inl ValueError)"

definition valid_date :: "date \<Rightarrow> bool" where
  "valid_date d = (1 \<le> year_of d \<and> year_of d \<le> 9999 \<and> 1 \<le> month_of d \<and> month_of d \<le> 12
     \<and> 1 \<le> day_of d \<and> day_of d \<le> monthrange (year_of d) (month_of d))"

fun add_day :: "date \<Rightarrow> exn + date" where
  \<comment> \<open>\<^verbatim>\<open>d + timedelta(days=1)\<close>\<close>
  "add_day (y, m, d) =
     (if d < monthrange y m then Inr (y, m, d + 1)
      else if m < 12 then Inr (y, m + 1, 1)
      else if y < 9999 then Inr (y + 1, 1, 1)
      else Inl OverflowError)"

fun sub_day :: "date \<Rightarrow> exn + date" where
  \<comment> \<open>\<^verbatim>\<open>d - timedelta(days=1)\<close>\<close>
  "sub_day (y, m, d) =
     (if 1 < d then Inr (y, m, d - 1)
      else if 1 < m then Inr (y, m - 1, monthrange y (m - 1))
      else if 1 < y then Inr (y - 1, 12, 31)
      else Inl OverflowError)"

text \<open>
  The difference of two dates is the difference of their proleptic Gregorian ordinals
  (\<^verbatim>\<open>date.toordinal\<close>).
\<close>

definition days_before_year :: "nat \<Rightarrow> int" where
  "days_before_year year = (let y = int year - 1 in y * 365 + y div 4 - y div 100 + y div 400)"

definition days_before_month_tab :: "int list" where
  "days_before_month_tab = [0, 0, 31, 59, 90, 120, 151, 181, 212, 243, 273, 304, 334]"

definition days_before_month :: "nat \<Rightarrow> nat \<Rightarrow> int" where
  "days_before_month y m = days_before_month_tab ! m + (if 2 < m \<and> isleap y then 1 else 0)"

definition toordinal :: "date \<Rightarrow> int" where
  "toordinal d = days_before_year (year_of d) + days_before_month (year_of d) (month_of d) + int (day_of d)"

definition days_between :: "date \<Rightarrow> date \<Rightarrow> int" where
  \<comment> \<open>\<^verbatim>\<open>(a - b).days\<close>\<close>
  "days_between a b = toordinal a - toordinal b"

section \<open>The two tables\<close>

text \<open>
  Text typed by the user (name, emoji) is a Python \<^verbatim>\<open>str\<close>: a list of Unicode code points,
  so that \<^verbatim>\<open>len\<close> and slicing count code points. The palette names are ASCII.
  \<^verbatim>\<open>created_at\<close> and the surrogate key of a Completion row are written by the database
  and read by no handler; they are left out of the rows.
\<close>

type_synonym ustr = "nat list"

record habit =
  h_id :: nat
  h_name :: ustr
  h_emoji :: ustr
  h_color :: string

record completion =
  c_habit_id :: nat
  c_date :: date
  c_completed :: bool

record store =
  habits :: "habit list"
  completions :: "completion list"

definition row_key :: "completion \<Rightarrow> nat \<times> date" where
  "row_key c = (c_habit_id c, c_date c)"

definition wf_store :: "store \<Rightarrow> bool" where
  \<comment> \<open>the primary key of Habit, the unique index \<^verbatim>\<open>idx_habit_date\<close>, and the column default
      \<^verbatim>\<open>completed = True\<close> that every insertion of the program uses\<close>
  "wf_store st = (distinct (map h_id (habits st)) \<and> distinct (map row_key (completions st))
     \<and> list_all c_completed (completions st))"

section \<open>Strings and the completion dictionary\<close>

fun str_nat :: "nat \<Rightarrow> string" where
  \<comment> \<open>\<^verbatim>\<open>str(n)\<close> of a non-negative integer: decimal, no leading zero\<close>
  "str_nat n = (if n < 10 then [''0123456789'' ! n] else str_nat (n div 10) @ [''0123456789'' ! (n mod 10)])"

declare str_nat.simps [simp del]

definition zpad :: "nat \<Rightarrow> string \<Rightarrow> string" where
  \<comment> \<open>the zero padding of \<^verbatim>\<open>%04d\<close> and \<^verbatim>\<open>%02d\<close>\<close>
  "zpad w s = replicate (w - length s) CHR ''0'' @ s"

definition date_str :: "date \<Rightarrow> string" where
  \<comment> \<open>\<^verbatim>\<open>str(d)\<close>, that is \<^verbatim>\<open>"%04d-%02d-%02d" % (year, month, day)\<close>\<close>
  "date_str d = zpad 4 (str_nat (year_of d)) @ ''-'' @ zpad 2 (str_nat (month_of d)) @ ''-''
     @ zpad 2 (str_nat (day_of d))"

definition completion_key :: "nat \<Rightarrow> date \<Rightarrow> string" where
  \<comment> \<open>\<^verbatim>\<open>f"{habit.id}-{comp.date}"\<close>\<close>
  "completion_key hid d = str_nat hid @ ''-'' @ date_str d"

definition endswith :: "string \<Rightarrow> string \<Rightarrow> bool" where
  "endswith s suf = (length suf \<le> length s \<and> drop (length s - length suf) s = suf)"

text \<open>
  A Python \<^verbatim>\<open>dict\<close> keeps its items in insertion order and assigning to a key that is
  present replaces the value in place: \<^const>\<open>AList.update\<close> on an association list.
\<close>

type_synonym completions_dict = "(string \<times> bool) list"

section \<open>The month summary (\<^verbatim>\<open>get_habits\<close>)\<close>

definition habit_dates :: "store \<Rightarrow> nat \<Rightarrow> date list" where
  \<comment> \<open>\<^verbatim>\<open>filter_by(habit_id=habit.id, completed=True).order_by(Completion.date.asc())\<close>\<close>
  "habit_dates st hid =
     map c_date (sort_key c_date (filter (\<lambda>c. c_habit_id c = hid \<and> c_completed c) (completions st)))"

function walk_back :: "date \<Rightarrow> date list \<Rightarrow> date \<Rightarrow> nat \<Rightarrow> exn + nat" where
  \<comment> \<open>the \<^verbatim>\<open>while\<close> loop of the current streak; the decrement raises below \<^verbatim>\<open>date.min\<close>\<close>
  "walk_back first_day dates current_check_date streak =
     (if first_day \<le> current_check_date \<and> current_check_date \<in> set dates
      then (case sub_day current_check_date of
              Inl e \<Rightarrow> Inl e
            | Inr p \<Rightarrow> walk_back first_day dates p (streak + 1))
      else Inr streak)"
  by pat_completeness auto
termination
  by (relation "measures [\<lambda>(f, ds, c, s). fst c, \<lambda>(f, ds, c, s). fst (snd c), \<lambda>(f, ds, c, s). snd (snd c)]")
     (auto split: if_splits)

declare walk_back.simps [simp del]

definition current_streak_of :: "date \<Rightarrow> date \<Rightarrow> date \<Rightarrow> date list \<Rightarrow> exn + nat" where
  "current_streak_of first_day last_day today dates = walk_back first_day dates (min today last_day) 0"

fun best_loop :: "date \<Rightarrow> date list \<Rightarrow> nat \<Rightarrow> nat \<Rightarrow> nat" where
  \<comment> \<open>the \<^verbatim>\<open>for i in range(1, len(sorted_dates))\<close> loop and the final \<^verbatim>\<open>max\<close>; the first
      argument is \<^verbatim>\<open>sorted_dates[i-1]\<close>, the list holds \<^verbatim>\<open>sorted_dates[i:]\<close>\<close>
  "best_loop prev [] best_streak temp_streak = max best_streak temp_streak"
| "best_loop prev (d # ds) best_streak temp_streak =
     (if days_between d prev = 1 then best_loop d ds best_streak (temp_streak + 1)
      else best_loop d ds (max best_streak temp_streak) 1)"

definition best_streak_of :: "date \<Rightarrow> date \<Rightarrow> date list \<Rightarrow> nat" where
  "best_streak_of first_day last_day dates =
     (let month_dates = filter (\<lambda>d. first_day \<le> d \<and> d \<le> last_day) dates in
      if month_dates \<noteq> [] then
        (let sorted_dates = sort month_dates in best_loop (hd sorted_dates) (tl sorted_dates) 0 1)
      else 0)"

definition month_comps :: "store \<Rightarrow> nat \<Rightarrow> date \<Rightarrow> date \<Rightarrow> completion list" where
  "month_comps st hid first_day last_day =
     filter (\<lambda>c. c_habit_id c = hid \<and> first_day \<le> c_date c \<and> c_date c \<le> last_day \<and> c_completed c)
       (completions st)"

fun habits_loop :: "store \<Rightarrow> date \<Rightarrow> date \<Rightarrow> date \<Rightarrow> habit list \<Rightarrow> completions_dict
    \<Rightarrow> (nat \<rightharpoonup> nat \<times> nat) \<Rightarrow> exn + (completions_dict \<times> (nat \<rightharpoonup> nat \<times> nat))" where
  \<comment> \<open>\<^verbatim>\<open>for habit in habits\<close>; a streak entry is the pair (current, best)\<close>
  "habits_loop st first_day last_day today [] completions_dict habit_streaks =
     Inr (completions_dict, habit_streaks)"
| "habits_loop st first_day last_day today (h # hs) completions_dict habit_streaks =
     (let dates = habit_dates st (h_id h) in
      case current_streak_of first_day last_day today dates of
        Inl e \<Rightarrow> Inl e
      | Inr streak \<Rightarrow>
          habits_loop st first_day last_day today hs
            (foldl (\<lambda>cd comp. AList.update (completion_key (h_id h) (c_date comp)) True cd)
               completions_dict (month_comps st (h_id h) first_day last_day))
            (habit_streaks(h_id h \<mapsto> (streak, best_streak_of first_day last_day dates))))"

text \<open>
  The percentage is a float, \<^verbatim>\<open>round(day_completions / len(habits) * 100, 1)\<close>. Floating
  point is not interpreted: \<open>Round1 k n\<close> stands for that float at
  \<^verbatim>\<open>day_completions = k\<close> and \<^verbatim>\<open>len(habits) = n\<close>, and \<open>Int_zero\<close> for the integer 0
  reported when there is no habit.
\<close>

datatype percentage = Int_zero | Round1 nat nat

record day_stat =
  ds_day :: nat
  ds_percentage :: percentage

definition day_completions :: "completions_dict \<Rightarrow> date \<Rightarrow> nat" where
  \<comment> \<open>\<^verbatim>\<open>sum(1 for k, v in completions_dict.items() if v and k.endswith(str(current_date)))\<close>\<close>
  "day_completions completions_dict current_date =
     length (filter (\<lambda>(k, v). v \<and> endswith k (date_str current_date)) completions_dict)"

definition day_entry :: "completions_dict \<Rightarrow> nat \<Rightarrow> date \<Rightarrow> day_stat" where
  \<comment> \<open>the entry appended for one day; \<open>nhabits\<close> is \<^verbatim>\<open>len(habits)\<close>\<close>
  "day_entry completions_dict nhabits current_date =
     \<lparr>ds_day = day_of current_date,
      ds_percentage =
        (if nhabits \<noteq> 0 then Round1 (day_completions completions_dict current_date) nhabits
         else Int_zero)\<rparr>"

function daily_loop :: "completions_dict \<Rightarrow> nat \<Rightarrow> date \<Rightarrow> date \<Rightarrow> day_stat list \<Rightarrow> exn + day_stat list" where
  \<comment> \<open>\<^verbatim>\<open>while current_date <= last_day\<close>; the increment raises above \<^verbatim>\<open>date.max\<close>\<close>
  "daily_loop completions_dict nhabits current_date last_day daily_stats =
     (if current_date \<le> last_day then
        (case add_day current_date of
           Inl e \<Rightarrow> Inl e
         | Inr nxt \<Rightarrow>
             daily_loop completions_dict nhabits nxt last_day
               (daily_stats @ [day_entry completions_dict nhabits current_date]))
      else Inr daily_stats)"
  by pat_completeness auto
termination
  by (relation "measures [\<lambda>(cd, n, c, l, a). 10000 - fst c, \<lambda>(cd, n, c, l, a). 13 - fst (snd c),
        \<lambda>(cd, n, c, l, a). monthrange (fst c) (fst (snd c)) - snd (snd c)]")
     (auto split: if_splits)

declare daily_loop.simps [simp del]

record habit_view =
  v_id :: nat
  v_name :: ustr
  v_emoji :: ustr
  v_color :: string
  v_current_streak :: nat
  v_best_streak :: nat

record summary =
  s_habits :: "habit_view list"
  s_completions :: completions_dict
  s_daily_stats :: "day_stat list"

definition habit_entry :: "(nat \<rightharpoonup> nat \<times> nat) \<Rightarrow> habit \<Rightarrow> habit_view" where
  "habit_entry habit_streaks h =
     \<lparr>v_id = h_id h, v_name = h_name h, v_emoji = h_emoji h, v_color = h_color h,
      v_current_streak = (case habit_streaks (h_id h) of None \<Rightarrow> 0 | Some s \<Rightarrow> fst s),
      v_best_streak = (case habit_streaks (h_id h) of None \<Rightarrow> 0 | Some s \<Rightarrow> snd s)\<rparr>"

definition get_habits :: "int \<Rightarrow> int \<Rightarrow> date \<Rightarrow> store \<Rightarrow> exn + summary" where
  \<comment> \<open>\<open>year\<close> and \<open>month\<close> are the parsed query arguments, \<open>today\<close> is
      \<^verbatim>\<open>datetime.now().date()\<close>; an exception leaves the handler (a 500 response)\<close>
  "get_habits year month today st =
     (case mk_date year month 1 of
        Inl e \<Rightarrow> Inl e
      | Inr first_day \<Rightarrow>
     (case mk_date year month (int (monthrange (nat year) (nat month))) of
        Inl e \<Rightarrow> Inl e
      | Inr last_day \<Rightarrow>
     (case habits_loop st first_day last_day today (habits st) [] Map.empty of
        Inl e \<Rightarrow> Inl e
      | Inr (completions_dict, habit_streaks) \<Rightarrow>
     (case daily_loop completions_dict (length (habits st)) first_day last_day [] of
        Inl e \<Rightarrow> Inl e
      | Inr daily_stats \<Rightarrow>
          Inr \<lparr>s_habits = map (habit_entry habit_streaks) (habits st),
               s_completions = completions_dict,
               s_daily_stats = daily_stats\<rparr>))))"

section \<open>The write handlers\<close>

text \<open>
  A handler returns the store after the request, the HTTP status and the JSON body.
  Each one runs inside \<^verbatim>\<open>try ... except Exception\<close>, which turns every exception into a
  rollback and status 500.
\<close>

datatype body = Error_body string | Id_body nat | Success_body | Empty_body

definition is_space :: "nat \<Rightarrow> bool" where
  \<comment> \<open>the code points that \<^verbatim>\<open>str.strip()\<close> removes\<close>
  "is_space c = ((9 \<le> c \<and> c \<le> 13) \<or> (28 \<le> c \<and> c \<le> 32) \<or> c = 133 \<or> c = 160 \<or> c = 5760
     \<or> (8192 \<le> c \<and> c \<le> 8202) \<or> c = 8232 \<or> c = 8233 \<or> c = 8239 \<or> c = 8287 \<or> c = 12288)"

definition strip :: "ustr \<Rightarrow> ustr" where
  "strip s = rev (dropWhile is_space (rev (dropWhile is_space s)))"

definition star :: ustr where
  \<comment> \<open>the one code point U+2B50 of the default emoji\<close>
  "star = [11088]"

definition colors :: "string list" where
  "colors = [''bg-orange-100'', ''bg-blue-100'', ''bg-purple-100'', ''bg-green-100'',
             ''bg-yellow-100'', ''bg-red-100'', ''bg-pink-100'', ''bg-indigo-100'']"

record create_body =
  cb_name :: "ustr option"
  cb_emoji :: "ustr option"

definition new_habit_id :: "habit list \<Rightarrow> nat" where
  \<comment> \<open>the key that SQLite gives an inserted row: one more than the largest key in use\<close>
  "new_habit_id hs = fold max (map h_id hs) 0 + 1"

definition create_habit :: "create_body option \<Rightarrow> store \<Rightarrow> store \<times> nat \<times> body" where
  \<comment> \<open>the request body is a JSON object with string fields, or absent (\<open>None\<close>)\<close>
  "create_habit request_json st =
     (case request_json of
        None \<Rightarrow> (st, 400, Error_body ''Habit name is required'')
      | Some data \<Rightarrow>
     (case cb_name data of
        None \<Rightarrow> (st, 400, Error_body ''Habit name is required'')
      | Some raw_name \<Rightarrow>
          (let name = strip raw_name;
               emoji = take 2 (strip (case cb_emoji data of None \<Rightarrow> star | Some e \<Rightarrow> e))
           in if name = [] \<or> length name > 100
              then (st, 400, Error_body ''Habit name must be between 1-100 characters'')
              else
                (let habit = \<lparr>h_id = new_habit_id (habits st), h_name = name,
                              h_emoji = (if emoji = [] then star else emoji),
                              h_color = colors ! (length (habits st) mod length colors)\<rparr>
                 in (st\<lparr>habits := habits st @ [habit]\<rparr>, 201, Id_body (h_id habit))))))"

definition get_or_404 :: "nat \<Rightarrow> store \<Rightarrow> exn + habit" where
  "get_or_404 habit_id st =
     (case find (\<lambda>h. h_id h = habit_id) (habits st) of None \<Rightarrow> Inl NotFound | Some h \<Rightarrow> Inr h)"

definition delete_habit :: "nat \<Rightarrow> store \<Rightarrow> store \<times> nat \<times> body" where
  \<comment> \<open>deleting the habit deletes its \<^verbatim>\<open>completions\<close> relationship
      (\<^verbatim>\<open>cascade='all, delete-orphan'\<close>)\<close>
  "delete_habit habit_id st =
     (case get_or_404 habit_id st of
        Inl e \<Rightarrow> (st, 500, Error_body ''Failed to delete habit'')
      | Inr habit \<Rightarrow>
          (\<lparr>habits = filter (\<lambda>h. h_id h \<noteq> h_id habit) (habits st),
            completions = filter (\<lambda>c. c_habit_id c \<noteq> h_id habit) (completions st)\<rparr>,
           204, Empty_body))"

record toggle_body =
  tb_habit_id :: "nat option"
  tb_date :: "string option"

definition toggle_completion :: "(string \<Rightarrow> date option) \<Rightarrow> toggle_body option \<Rightarrow> store \<Rightarrow> store \<times> nat \<times> body" where
  \<comment> \<open>\<open>strptime s\<close> stands for \<^verbatim>\<open>datetime.strptime(s, '%Y-%m-%d').date()\<close>, \<open>None\<close> for
      its \<^verbatim>\<open>ValueError\<close>\<close>
  "toggle_completion strptime request_json st =
     (case request_json of
        None \<Rightarrow> (st, 400, Error_body ''habit_id and date are required'')
      | Some data \<Rightarrow>
     (case tb_habit_id data of
        None \<Rightarrow> (st, 400, Error_body ''habit_id and date are required'')
      | Some habit_id \<Rightarrow>
     (case tb_date data of
        None \<Rightarrow> (st, 400, Error_body ''habit_id and date are required'')
      | Some date_string \<Rightarrow>
     (case strptime date_string of
        None \<Rightarrow> (st, 400, Error_body ''Invalid date format. Use YYYY-MM-DD'')
      | Some date \<Rightarrow>
     (case get_or_404 habit_id st of
        Inl e \<Rightarrow> (st, 500, Error_body ''Failed to toggle completion'')
      | Inr habit \<Rightarrow>
     (case find (\<lambda>c. c_habit_id c = habit_id \<and> c_date c = date) (completions st) of
        Some completion \<Rightarrow>
          (st\<lparr>completions := remove1 completion (completions st)\<rparr>, 200, Success_body)
      | None \<Rightarrow>
          (st\<lparr>completions := completions st @
                 [\<lparr>c_habit_id = habit_id, c_date = date, c_completed = True\<rparr>]\<rparr>,
           200, Success_body)))))))"

section \<open>Notions used to state the properties\<close>

definition first_of :: "int \<Rightarrow> int \<Rightarrow> date" where
  \<comment> \<open>\<^verbatim>\<open>first_day\<close> of a valid target month\<close>
  "first_of year month = (nat year, nat month, 1)"

definition last_of :: "int \<Rightarrow> int \<Rightarrow> date" where
  \<comment> \<open>\<^verbatim>\<open>last_day\<close> of a valid target month\<close>
  "last_of year month = (nat year, nat month, monthrange (nat year) (nat month))"

definition valid_ym :: "int \<Rightarrow> int \<Rightarrow> bool" where
  "valid_ym year month = (1 \<le> year \<and> year \<le> 9999 \<and> 1 \<le> month \<and> month \<le> 12)"

definition completed_on :: "store \<Rightarrow> nat \<Rightarrow> date \<Rightarrow> bool" where
  \<comment> \<open>the completion set: habit \<open>hid\<close> has a Completion row, marked completed, for day \<open>d\<close>\<close>
  "completed_on st hid d =
     list_ex (\<lambda>c. c_habit_id c = hid \<and> c_date c = d \<and> c_completed c) (completions st)"

definition walk_days :: "date \<Rightarrow> date \<Rightarrow> date list" where
  \<comment> \<open>the days met walking backward from \<open>start\<close> (a day of the month of \<open>first_day\<close>, or an
      earlier day) down to \<open>first_day\<close>; none when \<open>start\<close> is before \<open>first_day\<close>\<close>
  "walk_days first_day start =
     (if first_day \<le> start
      then map (\<lambda>k. (year_of start, month_of start, k)) (rev [day_of first_day..<Suc (day_of start)])
      else [])"

definition walk_count :: "date \<Rightarrow> date \<Rightarrow> (date \<Rightarrow> bool) \<Rightarrow> nat" where
  \<comment> \<open>the backward-walk count started at \<open>start\<close>: the number of consecutive completed
      days, from \<open>start\<close> backward, not before \<open>first_day\<close>\<close>
  "walk_count first_day start done = length (takeWhile done (walk_days first_day start))"

definition spec_current_streak :: "date \<Rightarrow> date \<Rightarrow> date \<Rightarrow> (date \<Rightarrow> bool) \<Rightarrow> nat" where
  \<comment> \<open>the current streak in the words of the specification: the walk starts at
      min(today, last day of month)\<close>
  "spec_current_streak first_day last_day today done = walk_count first_day (min today last_day) done"

definition is_run :: "(date \<Rightarrow> bool) \<Rightarrow> nat \<Rightarrow> nat \<Rightarrow> nat \<Rightarrow> nat \<Rightarrow> bool" where
  \<comment> \<open>the \<open>n\<close> consecutive calendar days \<open>a, a + 1, ..., a + n - 1\<close> of month \<open>m\<close> of year
      \<open>y\<close> are days of that month and all completed\<close>
  "is_run done y m a n =
     list_all (\<lambda>k. 1 \<le> k \<and> k \<le> monthrange y m \<and> done (y, m, k)) [a..<a + n]"

fun run_loop :: "nat \<Rightarrow> nat list \<Rightarrow> nat \<Rightarrow> nat \<Rightarrow> nat" where
  \<comment> \<open>\<^const>\<open>best_loop\<close> on the day numbers of dates that lie in one month\<close>
  "run_loop p [] b t = max b t"
| "run_loop p (k # ks) b t =
     (if k = Suc p then run_loop k ks b (t + 1) else run_loop k ks (max b t) 1)"

text \<open>A small store used to instantiate the theorems: two habits, the first one completed on
  days 3, 4, 5 and 10 of February 2024.\<close>

definition ex_store :: store where
  "ex_store =
     \<lparr>habits = [\<lparr>h_id = 1, h_name = [71, 121, 109], h_emoji = [11088], h_color = ''bg-orange-100''\<rparr>,
                \<lparr>h_id = 2, h_name = [82, 101, 97, 100], h_emoji = [11088], h_color = ''bg-blue-100''\<rparr>],
      completions = [\<lparr>c_habit_id = 1, c_date = (2024, 2, 3), c_completed = True\<rparr>,
                     \<lparr>c_habit_id = 1, c_date = (2024, 2, 5), c_completed = True\<rparr>,
                     \<lparr>c_habit_id = 1, c_date = (2024, 2, 4), c_completed = True\<rparr>,
                     \<lparr>c_habit_id = 1, c_date = (2024, 2, 10), c_completed = True\<rparr>,
                     \<lparr>c_habit_id = 2, c_date = (2024, 2, 29), c_completed = True\<rparr>,
                     \<lparr>c_habit_id = 2, c_date = (2024, 1, 31), c_completed = True\<rparr>]\<rparr>"

text \<open>The same habits with other completions outside February 2024.\<close>

definition ex_store2 :: store where
  "ex_store2 =
     \<lparr>habits = habits ex_store,
      completions = [\<lparr>c_habit_id = 1, c_date = (2024, 2, 10), c_completed = True\<rparr>,
                     \<lparr>c_habit_id = 1, c_date = (2024, 2, 3), c_completed = True\<rparr>,
                     \<lparr>c_habit_id = 1, c_date = (2024, 2, 4), c_completed = True\<rparr>,
                     \<lparr>c_habit_id = 1, c_date = (2024, 2, 5), c_completed = True\<rparr>,
                     \<lparr>c_habit_id = 2, c_date = (2024, 2, 29), c_completed = True\<rparr>,
                     \<lparr>c_habit_id = 2, c_date = (2024, 3, 1), c_completed = True\<rparr>,
                     \<lparr>c_habit_id = 1, c_date = (2024, 1, 31), c_completed = True\<rparr>]\<rparr>"

section \<open>Calendar and loop lemmas\<close>

lemma month_cases:
  "1 \<le> m \<Longrightarrow> m \<le> 12 \<Longrightarrow>
   m = 1 \<or> m = 2 \<or> m = 3 \<or> m = 4 \<or> m = 5 \<or> m = 6 \<or> m = 7 \<or> m = 8 \<or> m = 9 \<or> m = 10 \<or> m = 11 \<or> m = (12::nat)"
  by arith

lemma monthrange_bounds: "1 \<le> m \<Longrightarrow> m \<le> 12 \<Longrightarrow> 28 \<le> monthrange y m \<and> monthrange y m \<le> 31"
  using month_cases[of m] by (auto simp: monthrange_def mdays_def)

lemma walk_back_before: "\<not> first_day \<le> cur \<Longrightarrow> walk_back first_day dates cur s = Inr s"
  by (simp add: walk_back.simps)

lemma walk_back_absent: "cur \<notin> set dates \<Longrightarrow> walk_back first_day dates cur s = Inr s"
  by (simp add: walk_back.simps)

lemma walk_back_first:
  "(y, m, Suc 0) \<in> set dates \<Longrightarrow>
   walk_back (y, m, Suc 0) dates (y, m, Suc 0) s =
     (if y \<le> 1 \<and> m \<le> 1 then Inl OverflowError else Inr (Suc s))"
proof -
  assume a: "(y, m, Suc 0) \<in> set dates"
  have b1: "\<not> (y, m, Suc 0) \<le> (y, m - 1, k)" if "1 < m" for k using that by auto
  have b2: "\<not> (y, m, Suc 0) \<le> (y - 1, 12, 31)" if "1 < y" using that by auto
  show ?thesis
    using a walk_back_before[OF b1] walk_back_before[OF b2]
    by (simp add: walk_back.simps[of _ _ "(y, m, Suc 0)"])
qed

lemma walk_back_step:
  "(y, m, Suc (Suc d)) \<in> set dates \<Longrightarrow>
   walk_back (y, m, Suc 0) dates (y, m, Suc (Suc d)) s = walk_back (y, m, Suc 0) dates (y, m, Suc d) (Suc s)"
  by (simp add: walk_back.simps[of _ _ "(y, m, Suc (Suc d))"])

lemma walk_back_month:
  "walk_back (y, m, Suc 0) dates (y, m, d) s = Inr r \<Longrightarrow>
   r = s + length (takeWhile (\<lambda>k. (y, m, k) \<in> set dates) (rev [1..<Suc d]))"
proof (induction d arbitrary: s r)
  case 0
  then show ?case by (simp add: walk_back.simps)
next
  case (Suc d)
  show ?case
  proof (cases "(y, m, Suc d) \<in> set dates")
    case False
    with Suc.prems show ?thesis by (simp add: walk_back_absent)
  next
    case True
    show ?thesis
    proof (cases d)
      case 0
      with Suc.prems True show ?thesis
        by (simp add: walk_back_first split: if_splits)
    next
      case (Suc d')
      with Suc.prems True have "walk_back (y, m, Suc 0) dates (y, m, d) (Suc s) = Inr r"
        by (simp add: walk_back_step)
      from Suc.IH[OF this] True show ?thesis by simp
    qed
  qed
qed

lemma walk_back_total:
  "\<not> (y \<le> 1 \<and> m \<le> 1) \<Longrightarrow> \<exists>r. walk_back (y, m, Suc 0) dates (y, m, d) s = Inr r"
proof (induction d arbitrary: s)
  case 0
  then show ?case by (simp add: walk_back.simps)
next
  case (Suc d)
  show ?case
  proof (cases "(y, m, Suc d) \<in> set dates")
    case False
    then show ?thesis by (simp add: walk_back_absent)
  next
    case True
    show ?thesis
    proof (cases d)
      case 0
      with Suc.prems True show ?thesis
        by (simp add: walk_back_first)
    next
      case (Suc d')
      with Suc.IH[OF Suc.prems] True show ?thesis
        by (simp add: walk_back_step)
    qed
  qed
qed

lemma daily_loop_after: "\<not> cur \<le> last_day \<Longrightarrow> daily_loop cd n cur last_day acc = Inr acc"
  by (simp add: daily_loop.simps)

lemma daily_loop_last:
  "daily_loop cd n (y, m, monthrange y m) (y, m, monthrange y m) acc =
     (if m < 12 \<or> y < 9999 then Inr (acc @ [day_entry cd n (y, m, monthrange y m)]) else Inl OverflowError)"
proof -
  have b1: "\<not> (y, Suc m, Suc 0) \<le> (y, m, k)" for k by auto
  have b2: "\<not> (Suc y, Suc 0, Suc 0) \<le> (y, m, k)" for k by auto
  show ?thesis
    using daily_loop_after[OF b1] daily_loop_after[OF b2]
    by (simp add: daily_loop.simps[of _ _ "(y, m, monthrange y m)"])
qed

lemma daily_loop_step:
  "d < monthrange y m \<Longrightarrow>
   daily_loop cd n (y, m, d) (y, m, monthrange y m) acc =
   daily_loop cd n (y, m, Suc d) (y, m, monthrange y m) (acc @ [day_entry cd n (y, m, d)])"
  by (simp add: daily_loop.simps[of _ _ "(y, m, d)"])

lemma daily_loop_month:
  "d \<le> monthrange y m \<Longrightarrow>
   daily_loop cd n (y, m, d) (y, m, monthrange y m) acc =
     (if m < 12 \<or> y < 9999
      then Inr (acc @ map (\<lambda>k. day_entry cd n (y, m, k)) [d..<Suc (monthrange y m)])
      else Inl OverflowError)"
proof (induction "monthrange y m - d" arbitrary: d acc)
  case 0
  then have "d = monthrange y m" by simp
  then show ?case by (simp add: daily_loop_last)
next
  case (Suc k)
  then have lt: "d < monthrange y m" and k: "k = monthrange y m - Suc d" by simp_all
  have up: "[d..<monthrange y m] = d # [Suc d..<monthrange y m]"
    using lt by (simp add: upt_conv_Cons)
  from Suc.hyps(1)[OF k, of "acc @ [day_entry cd n (y, m, d)]"] lt
  show ?case by (simp add: daily_loop_step up)
qed

lemma mk_date_first: "mk_date year month 1 = (if valid_ym year month then Inr (first_of year month) else Inl ValueError)"
proof (cases "valid_ym year month")
  case True
  then have "1 \<le> nat month" "nat month \<le> 12" by (auto simp: valid_ym_def)
  from monthrange_bounds[OF this, of "nat year"] True show ?thesis
    by (auto simp: mk_date_def valid_ym_def first_of_def)
next
  case False
  then show ?thesis by (auto simp: mk_date_def valid_ym_def)
qed

lemma mk_date_last:
  "valid_ym year month \<Longrightarrow> mk_date year month (int (monthrange (nat year) (nat month))) = Inr (last_of year month)"
proof -
  assume v: "valid_ym year month"
  then have "1 \<le> nat month" "nat month \<le> 12" by (auto simp: valid_ym_def)
  from monthrange_bounds[OF this, of "nat year"] v show ?thesis
    by (auto simp: mk_date_def valid_ym_def last_of_def)
qed

lemma get_habits_unfold:
  "get_habits year month today st =
     (if \<not> valid_ym year month then Inl ValueError
      else case habits_loop st (first_of year month) (last_of year month) today (habits st) [] Map.empty of
             Inl e \<Rightarrow> Inl e
           | Inr (completions_dict, habit_streaks) \<Rightarrow>
               (case daily_loop completions_dict (length (habits st)) (first_of year month) (last_of year month) [] of
                  Inl e \<Rightarrow> Inl e
                | Inr daily_stats \<Rightarrow>
                    Inr \<lparr>s_habits = map (habit_entry habit_streaks) (habits st),
                         s_completions = completions_dict,
                         s_daily_stats = daily_stats\<rparr>))"
  by (simp add: get_habits_def mk_date_first mk_date_last)

lemma get_habits_Inr:
  assumes "get_habits year month today st = Inr r"
  shows "valid_ym year month \<and>
    (\<exists>hst. habits_loop st (first_of year month) (last_of year month) today (habits st) [] Map.empty
              = Inr (s_completions r, hst)
          \<and> s_habits r = map (habit_entry hst) (habits st))
    \<and> daily_loop (s_completions r) (length (habits st)) (first_of year month) (last_of year month) []
        = Inr (s_daily_stats r)"
  using assms unfolding get_habits_unfold
  by (auto split: if_splits sum.splits prod.splits)

lemma habits_loop_other:
  "habits_loop st f l t hs cd m0 = Inr (cd', m') \<Longrightarrow> x \<notin> h_id ` set hs \<Longrightarrow> m' x = m0 x"
proof (induction hs arbitrary: cd m0)
  case Nil
  then show ?case by simp
next
  case (Cons h hs)
  then show ?case
    by (auto simp: Let_def split: sum.splits)
qed

lemma habits_loop_streaks:
  "habits_loop st f l t hs cd m0 = Inr (cd', m') \<Longrightarrow> distinct (map h_id hs) \<Longrightarrow> h \<in> set hs \<Longrightarrow>
   \<exists>c. current_streak_of f l t (habit_dates st (h_id h)) = Inr c
      \<and> m' (h_id h) = Some (c, best_streak_of f l (habit_dates st (h_id h)))"
proof (induction hs arbitrary: cd m0)
  case Nil
  then show ?case by simp
next
  case (Cons a hs)
  from Cons.prems(1) obtain c where
    c: "current_streak_of f l t (habit_dates st (h_id a)) = Inr c" and
    rest: "habits_loop st f l t hs
            (foldl (\<lambda>cd comp. AList.update (completion_key (h_id a) (c_date comp)) True cd) cd
               (month_comps st (h_id a) f l))
            (m0(h_id a \<mapsto> (c, best_streak_of f l (habit_dates st (h_id a))))) = Inr (cd', m')"
    by (auto simp: Let_def split: sum.splits)
  show ?case
  proof (cases "h \<in> set hs")
    case True
    with Cons.IH[OF rest] Cons.prems(2) show ?thesis by simp
  next
    case False
    with Cons.prems(3) have ha: "h = a" by simp
    from Cons.prems(2) have "h_id a \<notin> h_id ` set hs" by simp
    from habits_loop_other[OF rest this] c ha show ?thesis by simp
  qed
qed

lemma habits_loop_total:
  "\<forall>h \<in> set hs. \<exists>c. current_streak_of f l t (habit_dates st (h_id h)) = Inr c \<Longrightarrow>
   \<exists>r. habits_loop st f l t hs cd m0 = Inr r"
proof (induction hs arbitrary: cd m0)
  case Nil
  then show ?case by simp
next
  case (Cons a hs)
  then obtain c where c: "current_streak_of f l t (habit_dates st (h_id a)) = Inr c" by auto
  from Cons have "\<forall>h \<in> set hs. \<exists>c. current_streak_of f l t (habit_dates st (h_id h)) = Inr c" by simp
  from Cons.IH[OF this] c show ?case by (simp add: Let_def)
qed

lemma set_habit_dates: "set (habit_dates st hid) = {d. completed_on st hid d}"
  by (force simp: habit_dates_def completed_on_def list_ex_iff)

lemma in_month_iff:
  "(y, m, Suc 0) \<le> (d::date) \<and> d \<le> (y, m, dim) \<longleftrightarrow> (\<exists>k. d = (y, m, k) \<and> 1 \<le> k \<and> k \<le> dim)"
  by (cases d) auto

lemma start_in_month:
  assumes "(y, m, Suc 0) \<le> min (today::date) (y, m, dim)"
  shows "\<exists>k. min today (y, m, dim) = (y, m, k) \<and> 1 \<le> k \<and> k \<le> dim"
proof -
  have "min today (y, m, dim) \<le> (y, m, dim)" by simp
  with assms in_month_iff[of y m "min today (y, m, dim)" dim] show ?thesis by blast
qed

lemma current_streak_spec:
  assumes "current_streak_of (y, m, Suc 0) (y, m, dim) today dates = Inr c"
  shows "c = spec_current_streak (y, m, Suc 0) (y, m, dim) today (\<lambda>d. d \<in> set dates)"
proof (cases "(y, m, Suc 0) \<le> min today (y, m, dim)")
  case False
  with assms show ?thesis
    by (simp add: current_streak_of_def spec_current_streak_def walk_count_def walk_days_def walk_back_before)
next
  case True
  from start_in_month[OF True] obtain k where k: "min today (y, m, dim) = (y, m, k)" "1 \<le> k" by blast
  from assms k have "walk_back (y, m, Suc 0) dates (y, m, k) 0 = Inr c"
    by (simp add: current_streak_of_def)
  from walk_back_month[OF this] True k show ?thesis
    by (simp add: spec_current_streak_def walk_count_def walk_days_def year_of_def month_of_def
        day_of_def takeWhile_map comp_def)
qed

lemma current_streak_total:
  "\<not> (y \<le> 1 \<and> m \<le> 1) \<Longrightarrow> \<exists>c. current_streak_of (y, m, Suc 0) (y, m, dim) today dates = Inr c"
proof (cases "(y, m, Suc 0) \<le> min today (y, m, dim)")
  case False
  then show ?thesis by (simp add: current_streak_of_def walk_back_before)
next
  case True
  assume a: "\<not> (y \<le> 1 \<and> m \<le> 1)"
  from start_in_month[OF True] obtain k where k: "min today (y, m, dim) = (y, m, k)" by blast
  from walk_back_total[OF a, of dates k 0] k show ?thesis by (simp add: current_streak_of_def)
qed

lemma get_habits_entry:
  assumes g: "get_habits year month today st = Inr r" and wf: "wf_store st" and i: "i < length (habits st)"
  shows "length (s_habits r) = length (habits st) \<and> v_id (s_habits r ! i) = h_id (habits st ! i) \<and>
    current_streak_of (first_of year month) (last_of year month) today (habit_dates st (h_id (habits st ! i)))
      = Inr (v_current_streak (s_habits r ! i)) \<and>
    v_best_streak (s_habits r ! i)
      = best_streak_of (first_of year month) (last_of year month) (habit_dates st (h_id (habits st ! i)))"
proof -
  from get_habits_Inr[OF g] obtain hst where
    hl: "habits_loop st (first_of year month) (last_of year month) today (habits st) [] Map.empty
           = Inr (s_completions r, hst)" and
    sh: "s_habits r = map (habit_entry hst) (habits st)" by blast
  from wf have d: "distinct (map h_id (habits st))" by (simp add: wf_store_def)
  from i have "habits st ! i \<in> set (habits st)" by simp
  from habits_loop_streaks[OF hl d this] obtain c where
    "current_streak_of (first_of year month) (last_of year month) today (habit_dates st (h_id (habits st ! i))) = Inr c"
    "hst (h_id (habits st ! i)) = Some (c, best_streak_of (first_of year month) (last_of year month) (habit_dates st (h_id (habits st ! i))))"
    by blast
  with sh i show ?thesis by (simp add: habit_entry_def)
qed

lemma ex_store_wf: "wf_store ex_store"
  by (simp add: wf_store_def ex_store_def row_key_def)

lemma get_habits_returns:
  assumes v: "valid_ym year month" and hi: "\<not> (year = 9999 \<and> month = 12)" and lo: "\<not> (year = 1 \<and> month = 1)"
  shows "\<exists>r. get_habits year month today st = Inr r"
proof -
  from v lo have nlo: "\<not> (nat year \<le> 1 \<and> nat month \<le> 1)" by (auto simp: valid_ym_def)
  have "\<forall>h \<in> set (habits st). \<exists>c. current_streak_of (first_of year month) (last_of year month) today
          (habit_dates st (h_id h)) = Inr c"
    unfolding first_of_def last_of_def One_nat_def using current_streak_total[OF nlo] by blast
  from habits_loop_total[OF this] obtain cd hst where
    hl: "habits_loop st (first_of year month) (last_of year month) today (habits st) [] Map.empty = Inr (cd, hst)"
    by fastforce
  from v hi have nhi: "nat month < 12 \<or> nat year < 9999" by (auto simp: valid_ym_def)
  from v have "1 \<le> nat month" "nat month \<le> 12" by (auto simp: valid_ym_def)
  from monthrange_bounds[OF this, of "nat year"] have "Suc 0 \<le> monthrange (nat year) (nat month)" by simp
  from daily_loop_month[OF this, of cd "length (habits st)" "[]"] nhi
  have "\<exists>ds. daily_loop cd (length (habits st)) (first_of year month) (last_of year month) [] = Inr ds"
    by (simp add: first_of_def last_of_def)
  with hl v show ?thesis by (auto simp: get_habits_unfold)
qed

lemma get_habits_daily_stats:
  assumes "get_habits year month today st = Inr r"
  shows "s_daily_stats r = map (\<lambda>k. day_entry (s_completions r) (length (habits st)) (nat year, nat month, k))
           [1..<Suc (monthrange (nat year) (nat month))]"
proof -
  from get_habits_Inr[OF assms] have v: "valid_ym year month" and
    dl: "daily_loop (s_completions r) (length (habits st)) (first_of year month) (last_of year month) []
           = Inr (s_daily_stats r)" by simp_all
  from v have "1 \<le> nat month" "nat month \<le> 12" by (auto simp: valid_ym_def)
  from monthrange_bounds[OF this, of "nat year"] have "Suc 0 \<le> monthrange (nat year) (nat month)" by simp
  from daily_loop_month[OF this, of "s_completions r" "length (habits st)" "[]"] dl
  show ?thesis by (simp add: first_of_def last_of_def split: if_splits)
qed

lemma ex_fetch: "get_habits 2024 2 (2024, 2, 5) ex_store = Inr (projr (get_habits 2024 2 (2024, 2, 5) ex_store))"
proof -
  have "\<exists>r. get_habits 2024 2 (2024, 2, 5) ex_store = Inr r"
    by (rule get_habits_returns) (simp_all add: valid_ym_def)
  then show ?thesis by auto
qed

lemma days_between_same_month: "days_between (y, m, k) (y, m, p) = int k - int p"
  by (simp add: days_between_def toordinal_def year_of_def month_of_def day_of_def)

lemma best_loop_days:
  "best_loop (y, m, p) (map (\<lambda>k. (y, m, k)) ks) b t = run_loop p ks b t"
proof (induction ks arbitrary: p b t)
  case Nil
  show ?case by simp
next
  case (Cons k ks)
  have "(int k - int p = 1) = (k = Suc p)" by arith
  with Cons show ?case by (simp add: days_between_same_month)
qed

lemma run_loop_ge: "b \<le> run_loop p ks b t \<and> t \<le> run_loop p ks b t"
proof (induction ks arbitrary: p b t)
  case Nil
  show ?case by simp
next
  case (Cons k ks)
  from Cons[of b k "t + 1"] Cons[of "max b t" k 1] show ?case by auto
qed

lemma tail_run: "t \<le> Suc p \<Longrightarrow> {Suc p - t..<Suc p - t + t} \<subseteq> {j. j \<le> p \<and> p < j + t}"
  by auto

lemma run_loop_achieved:
  "t \<le> Suc p \<Longrightarrow>
   run_loop p ks b t = b \<or>
   (\<exists>a. {a..<a + run_loop p ks b t} \<subseteq> set ks \<union> {j. j \<le> p \<and> p < j + t})"
proof (induction ks arbitrary: p b t)
  case Nil
  show ?case
  proof (cases "t \<le> b")
    case True
    then show ?thesis by (simp add: max_def)
  next
    case False
    then have "max b t = t" by simp
    with tail_run[OF Nil] show ?thesis by auto
  qed
next
  case (Cons k ks)
  show ?case
  proof (cases "k = Suc p")
    case True
    from Cons.prems True have "t + 1 \<le> Suc k" by simp
    from Cons.IH[OF this, of b]
    consider "run_loop k ks b (t + 1) = b"
      | a where "{a..<a + run_loop k ks b (t + 1)} \<subseteq> set ks \<union> {j. j \<le> k \<and> k < j + (t + 1)}"
      by blast
    then show ?thesis
    proof cases
      case 1
      with True show ?thesis by simp
    next
      case 2
      have "{j. j \<le> k \<and> k < j + (t + 1)} \<subseteq> insert k {j. j \<le> p \<and> p < j + t}"
        using True by auto
      with 2 have "{a..<a + run_loop k ks b (t + 1)} \<subseteq> set (k # ks) \<union> {j. j \<le> p \<and> p < j + t}"
        by auto
      with True show ?thesis by auto
    qed
  next
    case False
    have "1 \<le> Suc k" by simp
    from Cons.IH[OF this, of "max b t"]
    consider "run_loop k ks (max b t) 1 = max b t"
      | a where "{a..<a + run_loop k ks (max b t) 1} \<subseteq> set ks \<union> {j. j \<le> k \<and> k < j + 1}"
      by blast
    then show ?thesis
    proof cases
      case 1
      show ?thesis
      proof (cases "t \<le> b")
        case True
        with 1 False show ?thesis by (simp add: max_def)
      next
        case f: False
        then have mt: "max b t = t" by simp
        from tail_run[OF Cons.prems] have "{Suc p - t..<Suc p - t + t} \<subseteq> set (k # ks) \<union> {j. j \<le> p \<and> p < j + t}"
          by blast
        with 1 False mt show ?thesis by auto
      qed
    next
      case 2
      have "{j. j \<le> k \<and> k < j + 1} \<subseteq> {k}" by auto
      with 2 have "{a..<a + run_loop k ks (max b t) 1} \<subseteq> set (k # ks) \<union> {j. j \<le> p \<and> p < j + t}"
        by auto
      with False show ?thesis by auto
    qed
  qed
qed

lemma run_loop_maximal:
  "sorted_wrt (<) (p # ks) \<Longrightarrow>
   {a..<a + n} \<subseteq> set ks \<union> {j. j \<le> p \<and> p < j + t} \<Longrightarrow>
   n \<le> run_loop p ks b t"
proof (induction ks arbitrary: p b t)
  case Nil
  show ?case
  proof (cases n)
    case 0
    then show ?thesis by simp
  next
    case (Suc n')
    then have m1: "a \<in> {a..<a + n}" and m2: "a + n' \<in> {a..<a + n}" by simp_all
    from subsetD[OF Nil.prems(2) m1] subsetD[OF Nil.prems(2) m2]
    have "p < a + t" "a + n' \<le> p" by simp_all
    with Suc have "n \<le> t" by arith
    then show ?thesis by simp
  qed
next
  case (Cons k ks)
  from Cons.prems(1) have sk: "sorted_wrt (<) (k # ks)" and pk: "p < k" and ks: "\<forall>x \<in> set ks. k < x"
    by auto
  show ?case
  proof (cases "k = Suc p")
    case True
    have "{a..<a + n} \<subseteq> set ks \<union> {j. j \<le> k \<and> k < j + (t + 1)}"
      using Cons.prems(2) True by auto
    from Cons.IH[OF sk this] True show ?thesis by simp
  next
    case False
    with pk have gap: "Suc p < k" by simp
    have notin: "Suc p \<notin> set (k # ks) \<union> {j. j \<le> p \<and> p < j + t}"
      using gap ks by auto
    show ?thesis
    proof (cases n)
      case 0
      then show ?thesis by simp
    next
      case (Suc n')
      then have ain: "a \<in> {a..<a + n}" by simp
      show ?thesis
      proof (cases "a \<le> p")
        case True
        have le: "a + n' \<le> p"
        proof (rule ccontr)
          assume "\<not> a + n' \<le> p"
          with True Suc have "Suc p \<in> {a..<a + n}" by simp
          with Cons.prems(2) notin show False by blast
        qed
        from ain Cons.prems(2) have "a \<in> set (k # ks) \<union> {j. j \<le> p \<and> p < j + t}" by blast
        with True pk ks have "p < a + t" by auto
        with le Suc have "n \<le> t" by arith
        also have "t \<le> max b t" by simp
        also have "max b t \<le> run_loop k ks (max b t) 1" using run_loop_ge by blast
        finally show ?thesis using False by simp
      next
        case f: False
        have "{a..<a + n} \<subseteq> set ks \<union> {j. j \<le> k \<and> k < j + 1}"
          using Cons.prems(2) f by auto
        from Cons.IH[OF sk this] False show ?thesis by simp
      qed
    qed
  qed
qed

lemma distinct_habit_dates: "wf_store st \<Longrightarrow> distinct (habit_dates st hid)"
proof -
  assume wf: "wf_store st"
  let ?F = "filter (\<lambda>c. c_habit_id c = hid \<and> c_completed c) (completions st)"
  from wf have "distinct (map row_key ?F)"
    by (simp add: wf_store_def distinct_map_filter)
  then have dF: "distinct ?F" and inj: "inj_on row_key (set ?F)"
    by (simp_all add: distinct_map)
  have "inj_on c_date (set ?F)"
  proof (rule inj_onI)
    fix a b assume "a \<in> set ?F" "b \<in> set ?F" "c_date a = c_date b"
    then have "row_key a = row_key b" by (simp add: row_key_def)
    with inj \<open>a \<in> set ?F\<close> \<open>b \<in> set ?F\<close> show "a = b" by (blast dest: inj_onD)
  qed
  with dF show ?thesis by (simp add: habit_dates_def distinct_map)
qed

lemma month_days_list:
  fixes dates :: "date list"
  assumes dd: "distinct dates"
  shows "\<exists>L. sorted_wrt (<) L \<and> set L = {k. 1 \<le> k \<and> k \<le> dim \<and> (y, m, k) \<in> set dates} \<and>
     best_streak_of (y, m, Suc 0) (y, m, dim) dates = (case L of [] \<Rightarrow> 0 | p # ks \<Rightarrow> run_loop p ks 0 1)"
proof -
  let ?D = "filter (\<lambda>d. (y, m, Suc 0) \<le> d \<and> d \<le> (y, m, dim)) dates"
  let ?S = "sort ?D"
  let ?L = "map day_of ?S"
  have inm: "(y, m, day_of d) = d \<and> 1 \<le> day_of d \<and> day_of d \<le> dim" if "d \<in> set ?S" for d
  proof -
    from that have "(y, m, Suc 0) \<le> d \<and> d \<le> (y, m, dim)" by simp
    with in_month_iff[of y m d dim] show ?thesis by (auto simp: day_of_def)
  qed
  have bk: "map (\<lambda>k. (y, m, k)) ?L = ?S"
    unfolding map_map comp_def by (rule map_idI) (simp only: inm)
  have "sorted_wrt (\<le>) ?S" by simp
  then have "sorted_wrt (\<lambda>a b. day_of a \<le> day_of b) ?S"
  proof (rule sorted_wrt_mono_rel[rotated])
    fix a b assume a: "a \<in> set ?S" and b: "b \<in> set ?S" and ab: "a \<le> b"
    from inm[OF a] inm[OF b] ab have "(y, m, day_of a) \<le> (y, m, day_of b)" by simp
    then show "day_of a \<le> day_of b" by simp
  qed
  then have sL: "sorted ?L" by (simp add: sorted_map)
  have "inj_on day_of (set ?S)"
  proof (rule inj_onI)
    fix a b assume a: "a \<in> set ?S" and b: "b \<in> set ?S" and ab: "day_of a = day_of b"
    from inm[OF a] have "a = (y, m, day_of a)" by simp
    also have "\<dots> = (y, m, day_of b)" using ab by simp
    also from inm[OF b] have "\<dots> = b" by simp
    finally show "a = b" .
  qed
  moreover have "distinct ?S" using dd by simp
  ultimately have dL: "distinct ?L" by (simp add: distinct_map)
  from sL dL have strict: "sorted_wrt (<) ?L" by (simp add: strict_sorted_iff)
  have setL: "set ?L = {k. 1 \<le> k \<and> k \<le> dim \<and> (y, m, k) \<in> set dates}"
  proof (intro set_eqI iffI)
    fix k assume "k \<in> set ?L"
    then obtain d where d: "d \<in> set ?S" "k = day_of d" by auto
    from inm[OF d(1)] d have "d = (y, m, k)" "1 \<le> k" "k \<le> dim" by auto
    moreover from d(1) have "d \<in> set dates" by simp
    ultimately show "k \<in> {k. 1 \<le> k \<and> k \<le> dim \<and> (y, m, k) \<in> set dates}" by simp
  next
    fix k assume "k \<in> {k. 1 \<le> k \<and> k \<le> dim \<and> (y, m, k) \<in> set dates}"
    then have "(y, m, k) \<in> set ?S" by simp
    then have "day_of (y, m, k) \<in> set ?L" by (simp only: set_map image_eqI)
    then show "k \<in> set ?L" by (simp add: day_of_def)
  qed
  have best: "best_streak_of (y, m, Suc 0) (y, m, dim) dates = (case ?L of [] \<Rightarrow> 0 | p # ks \<Rightarrow> run_loop p ks 0 1)"
  proof (cases ?L)
    case Nil
    then have "?S = []" by simp
    then have "set ?S = {}" by (simp only: list.set)
    then have "set ?D = {}" by (simp only: set_sort)
    then have "?D = []" by (simp only: set_empty)
    with Nil show ?thesis by (simp add: best_streak_of_def)
  next
    case (Cons p ks)
    from bk have "?S = map (\<lambda>k. (y, m, k)) (p # ks)" unfolding Cons by (rule sym)
    then have S: "?S = (y, m, p) # map (\<lambda>k. (y, m, k)) ks" by (simp only: list.map)
    then have "?D \<noteq> []" by auto
    then have "best_streak_of (y, m, Suc 0) (y, m, dim) dates = best_loop (hd ?S) (tl ?S) 0 1"
      by (simp add: best_streak_of_def Let_def)
    also have "\<dots> = run_loop p ks 0 1" unfolding S by (simp add: best_loop_days)
    finally show ?thesis using Cons by simp
  qed
  from strict setL best show ?thesis by blast
qed

lemma is_run_iff:
  "is_run done y m a n \<longleftrightarrow> {a..<a + n} \<subseteq> {k. 1 \<le> k \<and> k \<le> monthrange y m \<and> done (y, m, k)}"
  by (auto simp: is_run_def list_all_iff)

lemma best_streak_char:
  fixes dates :: "date list"
  assumes dd: "distinct dates"
  shows "(\<exists>a. is_run (\<lambda>d. d \<in> set dates) y m a (best_streak_of (y, m, Suc 0) (y, m, monthrange y m) dates)) \<and>
         (\<forall>a n. is_run (\<lambda>d. d \<in> set dates) y m a n \<longrightarrow> n \<le> best_streak_of (y, m, Suc 0) (y, m, monthrange y m) dates)"
proof -
  let ?b = "best_streak_of (y, m, Suc 0) (y, m, monthrange y m) dates"
  from month_days_list[OF dd, of "monthrange y m" y m] obtain L where
    strict: "sorted_wrt (<) L" and
    setL: "set L = {k. 1 \<le> k \<and> k \<le> monthrange y m \<and> (y, m, k) \<in> set dates}" and
    best: "?b = (case L of [] \<Rightarrow> 0 | p # ks \<Rightarrow> run_loop p ks 0 1)" by blast
  show ?thesis
  proof (cases L)
    case Nil
    with best have b0: "?b = 0" by simp
    have "n = 0" if "is_run (\<lambda>d. d \<in> set dates) y m a n" for a n
    proof (rule ccontr)
      assume "n \<noteq> 0"
      then have "a \<in> {a..<a + n}" by simp
      moreover from that have "{a..<a + n} \<subseteq> set L" unfolding is_run_iff setL .
      ultimately show False using Nil by auto
    qed
    with b0 show ?thesis by (auto simp: is_run_iff)
  next
    case (Cons p ks)
    with best have b: "?b = run_loop p ks 0 1" by simp
    have sub: "set ks \<union> {j. j \<le> p \<and> p < j + 1} \<subseteq> set L" using Cons by auto
    have ex: "\<exists>a. {a..<a + ?b} \<subseteq> set L"
    proof -
      have "1 \<le> Suc p" by simp
      from run_loop_achieved[OF this, of ks 0] show ?thesis
      proof (elim disjE exE)
        assume "run_loop p ks 0 1 = 0"
        with b show ?thesis by simp
      next
        fix a assume "{a..<a + run_loop p ks 0 1} \<subseteq> set ks \<union> {j. j \<le> p \<and> p < j + 1}"
        then have "{a..<a + run_loop p ks 0 1} \<subseteq> set L" using sub by (rule subset_trans)
        with b show ?thesis by auto
      qed
    qed
    have mx: "n \<le> ?b" if "{a..<a + n} \<subseteq> set L" for a n
    proof -
      from that Cons have "{a..<a + n} \<subseteq> set ks \<union> {j. j \<le> p \<and> p < j + 1}" by auto
      from run_loop_maximal[OF strict[unfolded Cons] this] b show ?thesis by simp
    qed
    from ex mx show ?thesis unfolding is_run_iff setL[symmetric] by blast
  qed
qed

lemma get_habits_best_streak:
  assumes g: "get_habits year month today st = Inr r" and wf: "wf_store st" and i: "i < length (habits st)"
  shows "(\<exists>a. is_run (completed_on st (h_id (habits st ! i))) (nat year) (nat month) a (v_best_streak (s_habits r ! i))) \<and>
         (\<forall>a n. is_run (completed_on st (h_id (habits st ! i))) (nat year) (nat month) a n
                 \<longrightarrow> n \<le> v_best_streak (s_habits r ! i))"
proof -
  let ?hid = "h_id (habits st ! i)"
  from get_habits_entry[OF g wf i] have
    "v_best_streak (s_habits r ! i) = best_streak_of (first_of year month) (last_of year month) (habit_dates st ?hid)"
    by simp
  then have b: "v_best_streak (s_habits r ! i) = best_streak_of (nat year, nat month, Suc 0)
      (nat year, nat month, monthrange (nat year) (nat month)) (habit_dates st ?hid)"
    by (simp add: first_of_def last_of_def)
  have mem: "(\<lambda>d. d \<in> set (habit_dates st ?hid)) = completed_on st ?hid"
    by (simp add: set_habit_dates)
  from best_streak_char[OF distinct_habit_dates[OF wf], of ?hid "nat year" "nat month"]
  show ?thesis unfolding b mem .
qed

lemma get_habits_current_streak:
  assumes g: "get_habits year month today st = Inr r" and wf: "wf_store st" and i: "i < length (habits st)"
  shows "v_current_streak (s_habits r ! i)
       = spec_current_streak (first_of year month) (last_of year month) today
           (completed_on st (h_id (habits st ! i)))"
proof -
  let ?hid = "h_id (habits st ! i)"
  from get_habits_entry[OF assms] have
    cs: "current_streak_of (first_of year month) (last_of year month) today (habit_dates st ?hid)
          = Inr (v_current_streak (s_habits r ! i))" by simp
  have mem: "(\<lambda>d. d \<in> set (habit_dates st ?hid)) = completed_on st ?hid"
    by (simp add: set_habit_dates)
  from cs have cs': "current_streak_of (nat year, nat month, Suc 0)
      (nat year, nat month, monthrange (nat year) (nat month)) today (habit_dates st ?hid)
          = Inr (v_current_streak (s_habits r ! i))"
    by (simp add: first_of_def last_of_def)
  from current_streak_spec[OF cs'] show ?thesis
    by (simp add: mem first_of_def last_of_def)
qed

lemma is_run_prefix: "is_run done y m a n \<Longrightarrow> k \<le> n \<Longrightarrow> is_run done y m a k"
proof -
  assume r: "is_run done y m a n" and k: "k \<le> n"
  from k have "{a..<a + k} \<subseteq> {a..<a + n}" by auto
  also from r have "\<dots> \<subseteq> {k. 1 \<le> k \<and> k \<le> monthrange y m \<and> done (y, m, k)}" unfolding is_run_iff .
  finally show ?thesis unfolding is_run_iff .
qed

lemma ex_dates: "habit_dates ex_store 1 = [(2024, 2, 3), (2024, 2, 4), (2024, 2, 5), (2024, 2, 10)]"
  by (simp add: habit_dates_def ex_store_def)

lemma ex_best: "best_streak_of (first_of 2024 2) (last_of 2024 2) (habit_dates ex_store 1) = 3"
  by (simp add: ex_dates[unfolded One_nat_def] best_streak_of_def first_of_def last_of_def
      monthrange_def mdays_def isleap_def days_between_same_month)

lemma walk_count_before: "\<not> first_day \<le> start \<Longrightarrow> walk_count first_day start done = 0"
  by (simp add: walk_count_def walk_days_def)

lemma ex_fetch_before:
  "get_habits 2024 2 (2024, 1, 15) ex_store = Inr (projr (get_habits 2024 2 (2024, 1, 15) ex_store))"
proof -
  have "\<exists>r. get_habits 2024 2 (2024, 1, 15) ex_store = Inr r"
    by (rule get_habits_returns) (simp_all add: valid_ym_def)
  then show ?thesis by auto
qed

lemma ex_walk_last: "walk_count (first_of 2024 2) (last_of 2024 2) (completed_on ex_store 2) = 1"
  by code_simp

lemma takeWhile_down_run:
  "length (takeWhile P (rev [Suc 0..<Suc k])) = c \<Longrightarrow> c \<le> k \<and> (\<forall>j. k - c < j \<and> j \<le> k \<longrightarrow> P j)"
proof (induction k arbitrary: c)
  case 0
  then show ?case by simp
next
  case (Suc k)
  show ?case
  proof (cases "P (Suc k)")
    case False
    with Suc.prems show ?thesis by auto
  next
    case True
    with Suc.prems obtain c' where c': "c = Suc c'" "length (takeWhile P (rev [Suc 0..<Suc k])) = c'"
      by auto
    from Suc.IH[OF c'(2)] have "c' \<le> k" and all: "\<forall>j. k - c' < j \<and> j \<le> k \<longrightarrow> P j" by simp_all
    have "P j" if "Suc k - c < j" "j \<le> Suc k" for j
    proof (cases "j = Suc k")
      case True
      with \<open>P (Suc k)\<close> show ?thesis by simp
    next
      case False
      with that c'(1) have "k - c' < j \<and> j \<le> k" by auto
      with all show ?thesis by blast
    qed
    with \<open>c' \<le> k\<close> c'(1) show ?thesis by simp
  qed
qed

lemma walk_count_is_run:
  assumes fs: "(y, m, Suc 0) \<le> start" and sl: "start \<le> (y, m, monthrange y m)"
  shows "\<exists>a. is_run done y m a (walk_count (y, m, Suc 0) start done)"
proof -
  from fs sl in_month_iff[of y m start "monthrange y m"] obtain k where
    k: "start = (y, m, k)" "1 \<le> k" "k \<le> monthrange y m" by blast
  let ?c = "walk_count (y, m, Suc 0) start done"
  have "length (takeWhile (\<lambda>j. done (y, m, j)) (rev [Suc 0..<Suc k])) = ?c"
    using fs k by (simp add: walk_count_def walk_days_def year_of_def month_of_def day_of_def
        takeWhile_map comp_def)
  from takeWhile_down_run[OF this] have ck: "?c \<le> k" and all: "\<forall>j. k - ?c < j \<and> j \<le> k \<longrightarrow> done (y, m, j)"
    by simp_all
  have "{Suc (k - ?c)..<Suc (k - ?c) + ?c} \<subseteq> {j. 1 \<le> j \<and> j \<le> monthrange y m \<and> done (y, m, j)}"
  proof
    fix j assume "j \<in> {Suc (k - ?c)..<Suc (k - ?c) + ?c}"
    with ck have "k - ?c < j \<and> j \<le> k" by auto
    with all k show "j \<in> {j. 1 \<le> j \<and> j \<le> monthrange y m \<and> done (y, m, j)}" by auto
  qed
  then show ?thesis unfolding is_run_iff by blast
qed

lemma sub_day_less: "sub_day c = Inr p \<Longrightarrow> p < c"
  by (cases c) (auto split: if_splits)

lemma walk_back_stop:
  "\<not> (first_day \<le> cur \<and> cur \<in> set dates) \<Longrightarrow> walk_back first_day dates cur s = Inr s"
  by (auto simp: walk_back.simps)

lemma walk_back_cong:
  "(\<forall>d. first_day \<le> d \<and> d \<le> cur \<longrightarrow> (d \<in> set ds1 \<longleftrightarrow> d \<in> set ds2)) \<Longrightarrow>
   walk_back first_day ds1 cur s = walk_back first_day ds2 cur s"
proof (induction first_day ds1 cur s rule: walk_back.induct)
  case (1 first_day dates cur streak)
  show ?case
  proof (cases "first_day \<le> cur \<and> cur \<in> set dates")
    case False
    from "1.prems" have here: "first_day \<le> cur \<longrightarrow> (cur \<in> set dates \<longleftrightarrow> cur \<in> set ds2)" by blast
    with False have "\<not> (first_day \<le> cur \<and> cur \<in> set ds2)" by blast
    from walk_back_stop[OF False] walk_back_stop[OF this] show ?thesis by simp
  next
    case True
    from "1.prems" have here: "first_day \<le> cur \<longrightarrow> (cur \<in> set dates \<longleftrightarrow> cur \<in> set ds2)" by blast
    with True have t2: "first_day \<le> cur \<and> cur \<in> set ds2" by blast
    show ?thesis
    proof (cases "sub_day cur")
      case (Inl e)
      with True t2 show ?thesis by (simp add: walk_back.simps[of _ _ cur])
    next
      case (Inr p)
      have "\<forall>d. first_day \<le> d \<and> d \<le> p \<longrightarrow> (d \<in> set dates \<longleftrightarrow> d \<in> set ds2)"
      proof (intro allI impI)
        fix d assume d: "first_day \<le> d \<and> d \<le> p"
        from d have "d \<le> p" by (rule conjunct2)
        also from sub_day_less[OF Inr] have "p \<le> cur" by (rule less_imp_le)
        finally have "d \<le> cur" .
        with d "1.prems" show "d \<in> set dates \<longleftrightarrow> d \<in> set ds2" by blast
      qed
      from "1.IH"[OF True Inr this] True t2 Inr show ?thesis
        by (simp add: walk_back.simps[of _ _ cur])
    qed
  qed
qed

lemma current_streak_of_cong:
  assumes "\<forall>d. first_day \<le> d \<and> d \<le> last_day \<longrightarrow> (d \<in> set ds1 \<longleftrightarrow> d \<in> set ds2)"
  shows "current_streak_of first_day last_day today ds1 = current_streak_of first_day last_day today ds2"
proof -
  have "\<forall>d. first_day \<le> d \<and> d \<le> min today last_day \<longrightarrow> (d \<in> set ds1 \<longleftrightarrow> d \<in> set ds2)"
  proof (intro allI impI)
    fix d assume d: "first_day \<le> d \<and> d \<le> min today last_day"
    then have "d \<le> min today last_day" by (rule conjunct2)
    also have "min today last_day \<le> last_day" by (rule min.cobounded2)
    finally have "d \<le> last_day" .
    with d assms show "d \<in> set ds1 \<longleftrightarrow> d \<in> set ds2" by blast
  qed
  then show ?thesis unfolding current_streak_of_def by (rule walk_back_cong)
qed

lemma best_streak_of_cong:
  fixes ds1 ds2 :: "date list"
  assumes a: "\<forall>d. first_day \<le> d \<and> d \<le> last_day \<longrightarrow> (d \<in> set ds1 \<longleftrightarrow> d \<in> set ds2)"
    and d1: "distinct ds1" and d2: "distinct ds2"
  shows "best_streak_of first_day last_day ds1 = best_streak_of first_day last_day ds2"
proof -
  let ?P = "\<lambda>d. first_day \<le> d \<and> d \<le> last_day"
  from a have s: "set (sort (filter ?P ds1)) = set (sort (filter ?P ds2))" by auto
  have "sort (filter ?P ds1) = sort (filter ?P ds2)"
    by (rule sorted_distinct_set_unique) (use s d1 d2 in simp_all)
  moreover have "(filter ?P ds = []) = (sort (filter ?P ds) = [])" for ds :: "date list"
  proof -
    have "(filter ?P ds = []) = (set (filter ?P ds) = {})" by (simp only: set_empty)
    also have "\<dots> = (set (sort (filter ?P ds)) = {})" by (simp only: set_sort)
    also have "\<dots> = (sort (filter ?P ds) = [])" by (simp only: set_empty)
    finally show ?thesis .
  qed
  ultimately show ?thesis unfolding best_streak_of_def Let_def by (simp only:)
qed

lemma habits_loop_cong:
  assumes "\<forall>h \<in> set hs.
      current_streak_of f l t (habit_dates st1 (h_id h)) = current_streak_of f l t (habit_dates st2 (h_id h)) \<and>
      best_streak_of f l (habit_dates st1 (h_id h)) = best_streak_of f l (habit_dates st2 (h_id h))"
    and "habits_loop st1 f l t hs cd1 m = Inr (cd1', m')"
  shows "\<exists>cd2'. habits_loop st2 f l t hs cd2 m = Inr (cd2', m')"
  using assms
proof (induction hs arbitrary: cd1 cd2 m)
  case Nil
  then show ?case by simp
next
  case (Cons h hs)
  from Cons.prems(2) obtain c where
    c: "current_streak_of f l t (habit_dates st1 (h_id h)) = Inr c" and
    rest: "habits_loop st1 f l t hs
            (foldl (\<lambda>cd comp. AList.update (completion_key (h_id h) (c_date comp)) True cd) cd1
               (month_comps st1 (h_id h) f l))
            (m(h_id h \<mapsto> (c, best_streak_of f l (habit_dates st1 (h_id h))))) = Inr (cd1', m')"
    by (auto simp: Let_def split: sum.splits)
  from Cons.prems(1) have
    hd: "current_streak_of f l t (habit_dates st2 (h_id h)) = Inr c"
        "best_streak_of f l (habit_dates st2 (h_id h)) = best_streak_of f l (habit_dates st1 (h_id h))" and
    tl: "\<forall>h \<in> set hs.
      current_streak_of f l t (habit_dates st1 (h_id h)) = current_streak_of f l t (habit_dates st2 (h_id h)) \<and>
      best_streak_of f l (habit_dates st1 (h_id h)) = best_streak_of f l (habit_dates st2 (h_id h))"
    using c by simp_all
  have step: "habits_loop st2 f l t (h # hs) cd2 m =
      habits_loop st2 f l t hs
        (foldl (\<lambda>cd comp. AList.update (completion_key (h_id h) (c_date comp)) True cd) cd2
           (month_comps st2 (h_id h) f l))
        (m(h_id h \<mapsto> (c, best_streak_of f l (habit_dates st1 (h_id h)))))"
    using hd by (simp add: Let_def)
  from Cons.IH[OF tl rest] show ?case unfolding step .
qed

section \<open>The claims\<close>

text \<open>
  Throughout, a theorem about the month summary speaks of a fetch that returns:
  \<open>get_habits year month today st = Inr r\<close>. By \<open>get_habits_returns\<close> that is the case
  for every valid year and month except January of year 1 and December of year 9999, where
  the date arithmetic of the handler can leave the range of \<^verbatim>\<open>datetime.date\<close>. The
  hypothesis \<open>wf_store\<close> is what the database schema enforces.
\<close>

text \<open>
  C1: for every habit, the current streak returned by the month summary is the number of
  consecutive completed days met walking backward from min(today, last day of the month),
  not going before the first day of the month; it is 0 when that start day is not
  completed, whatever was completed in the preceding month.
\<close>

theorem current_streak_is_backward_walk:
  assumes "get_habits year month today st = Inr r" and "wf_store st" and "i < length (habits st)"
  shows "v_id (s_habits r ! i) = h_id (habits st ! i) \<and>
     v_current_streak (s_habits r ! i)
       = spec_current_streak (first_of year month) (last_of year month) today
           (completed_on st (h_id (habits st ! i))) \<and>
     (\<not> completed_on st (h_id (habits st ! i)) (min today (last_of year month))
        \<longrightarrow> v_current_streak (s_habits r ! i) = 0)"
proof -
  let ?hid = "h_id (habits st ! i)"
  from get_habits_entry[OF assms] have
    vid: "v_id (s_habits r ! i) = ?hid" and
    cs: "current_streak_of (first_of year month) (last_of year month) today (habit_dates st ?hid)
          = Inr (v_current_streak (s_habits r ! i))" by simp_all
  have mem: "(\<lambda>d. d \<in> set (habit_dates st ?hid)) = completed_on st ?hid"
    by (simp add: set_habit_dates)
  from cs have cs': "current_streak_of (nat year, nat month, Suc 0)
      (nat year, nat month, monthrange (nat year) (nat month)) today (habit_dates st ?hid)
          = Inr (v_current_streak (s_habits r ! i))"
    by (simp add: first_of_def last_of_def)
  from current_streak_spec[OF cs'] have spec: "v_current_streak (s_habits r ! i)
       = spec_current_streak (first_of year month) (last_of year month) today (completed_on st ?hid)"
    by (simp add: mem first_of_def last_of_def)
  have zero: "v_current_streak (s_habits r ! i) = 0"
    if "\<not> completed_on st ?hid (min today (last_of year month))"
  proof -
    from that have "min today (last_of year month) \<notin> set (habit_dates st ?hid)"
      by (simp add: set_habit_dates)
    from walk_back_absent[OF this] cs show ?thesis by (simp add: current_streak_of_def)
  qed
  from vid spec zero show ?thesis by blast
qed

theorem current_streak_is_backward_walk_witness:
  "get_habits 2024 2 (2024, 2, 5) ex_store = Inr (projr (get_habits 2024 2 (2024, 2, 5) ex_store)) \<and>
   wf_store ex_store \<and> 0 < length (habits ex_store) \<and>
   v_current_streak (s_habits (projr (get_habits 2024 2 (2024, 2, 5) ex_store)) ! 0) = 3"
proof -
  have i: "0 < length (habits ex_store)" by (simp add: ex_store_def)
  have h: "h_id (habits ex_store ! 0) = 1" by (simp add: ex_store_def)
  have v: "spec_current_streak (first_of 2024 2) (last_of 2024 2) (2024, 2, 5) (completed_on ex_store 1) = 3"
    by code_simp
  from current_streak_is_backward_walk[OF ex_fetch ex_store_wf i] v h ex_fetch ex_store_wf i
  show ?thesis by simp
qed

text \<open>
  C10: the daily series of a returned month summary has exactly one entry per calendar day
  of the target month, in ascending order from day 1 to the last day of the month,
  whatever the habits and completions are.
\<close>

theorem daily_stats_one_entry_per_day:
  assumes "get_habits year month today st = Inr r"
  shows "map ds_day (s_daily_stats r) = [1..<Suc (monthrange (nat year) (nat month))]"
  using get_habits_daily_stats[OF assms]
  by (simp add: day_entry_def day_of_def comp_def)

theorem daily_stats_one_entry_per_day_witness:
  "get_habits 2024 2 (2024, 2, 5) ex_store = Inr (projr (get_habits 2024 2 (2024, 2, 5) ex_store)) \<and>
   map ds_day (s_daily_stats (projr (get_habits 2024 2 (2024, 2, 5) ex_store))) = [1..<Suc 29]"
proof -
  have m: "monthrange (nat 2024) (nat 2) = 29" by (simp add: monthrange_def mdays_def isleap_def)
  from daily_stats_one_entry_per_day[OF ex_fetch] ex_fetch m show ?thesis by (simp del: upt_Suc)
qed

text \<open>
C2: for every habit, the best streak returned by the month summary is the length of the
  longest run of consecutive calendar days among the habit's completed days of the target
  month: a run of that length exists, no run is longer, and it is 0 when no day of the
  month is completed. The witness is the month with completions on days 3, 4, 5 and 10:
  the best streak is 3 and there is no run of 4 days.
\<close>

theorem best_streak_is_longest_run:
  assumes "get_habits year month today st = Inr r" and "wf_store st" and "i < length (habits st)"
  shows "v_id (s_habits r ! i) = h_id (habits st ! i) \<and>
     (\<exists>a. is_run (completed_on st (h_id (habits st ! i))) (nat year) (nat month) a (v_best_streak (s_habits r ! i))) \<and>
     (\<forall>a n. is_run (completed_on st (h_id (habits st ! i))) (nat year) (nat month) a n
             \<longrightarrow> n \<le> v_best_streak (s_habits r ! i)) \<and>
     ((\<forall>k. \<not> is_run (completed_on st (h_id (habits st ! i))) (nat year) (nat month) k 1)
        \<longrightarrow> v_best_streak (s_habits r ! i) = 0)"
proof -
  let ?done = "completed_on st (h_id (habits st ! i))"
  let ?b = "v_best_streak (s_habits r ! i)"
  from get_habits_entry[OF assms] have vid: "v_id (s_habits r ! i) = h_id (habits st ! i)" by simp
  from get_habits_best_streak[OF assms] obtain a where
    run: "is_run ?done (nat year) (nat month) a ?b" and
    mx: "\<forall>a n. is_run ?done (nat year) (nat month) a n \<longrightarrow> n \<le> ?b" by blast
  have none: "?b = 0" if "\<forall>k. \<not> is_run ?done (nat year) (nat month) k 1"
  proof (rule ccontr)
    assume "?b \<noteq> 0"
    then have "1 \<le> ?b" by simp
    from is_run_prefix[OF run this] that show False by blast
  qed
  from vid run mx none show ?thesis by blast
qed

theorem best_streak_is_longest_run_witness:
  "get_habits 2024 2 (2024, 2, 5) ex_store = Inr (projr (get_habits 2024 2 (2024, 2, 5) ex_store)) \<and>
   wf_store ex_store \<and> 0 < length (habits ex_store) \<and>
   habit_dates ex_store (h_id (habits ex_store ! 0)) = [(2024, 2, 3), (2024, 2, 4), (2024, 2, 5), (2024, 2, 10)] \<and>
   v_best_streak (s_habits (projr (get_habits 2024 2 (2024, 2, 5) ex_store)) ! 0) = 3 \<and>
   (\<forall>a. \<not> is_run (completed_on ex_store (h_id (habits ex_store ! 0))) (nat 2024) (nat 2) a 4)"
proof -
  let ?b = "v_best_streak (s_habits (projr (get_habits 2024 2 (2024, 2, 5) ex_store)) ! 0)"
  have i: "0 < length (habits ex_store)" by (simp add: ex_store_def)
  have h: "h_id (habits ex_store ! 0) = 1" by (simp add: ex_store_def)
  from get_habits_entry[OF ex_fetch ex_store_wf i] h ex_best have b3: "?b = 3" by simp
  from best_streak_is_longest_run[OF ex_fetch ex_store_wf i] have
    "\<forall>a n. is_run (completed_on ex_store (h_id (habits ex_store ! 0))) (nat 2024) (nat 2) a n \<longrightarrow> n \<le> ?b"
    by blast
  with b3 have "\<forall>a. \<not> is_run (completed_on ex_store (h_id (habits ex_store ! 0))) (nat 2024) (nat 2) a 4"
    by fastforce
  with ex_fetch ex_store_wf i h ex_dates b3 show ?thesis by simp
qed

text \<open>
  C4 (as amended): when today is after the last day of the target month, the current streak
  is the backward-walk count started at the month's last day; when today is before the
  first day of the target month, the walk starts at today, which lies before the month,
  and the current streak is 0.
\<close>

theorem streak_start_outside_month:
  assumes "get_habits year month today st = Inr r" and "wf_store st" and "i < length (habits st)"
  shows "(last_of year month < today \<longrightarrow>
            v_current_streak (s_habits r ! i)
              = walk_count (first_of year month) (last_of year month) (completed_on st (h_id (habits st ! i)))) \<and>
         (today < first_of year month \<longrightarrow> v_current_streak (s_habits r ! i) = 0)"
proof -
  let ?done = "completed_on st (h_id (habits st ! i))"
  note cs = get_habits_current_streak[OF assms]
  from get_habits_Inr[OF assms(1)] have v: "valid_ym year month" by simp
  then have "1 \<le> nat month" "nat month \<le> 12" by (auto simp: valid_ym_def)
  from monthrange_bounds[OF this, of "nat year"] have fl: "first_of year month \<le> last_of year month"
    by (simp add: first_of_def last_of_def)
  have after: "v_current_streak (s_habits r ! i) = walk_count (first_of year month) (last_of year month) ?done"
    if "last_of year month < today"
  proof -
    from that have "min today (last_of year month) = last_of year month" by (auto simp: min_def)
    with cs show ?thesis by (simp add: spec_current_streak_def)
  qed
  have before: "v_current_streak (s_habits r ! i) = 0" if "today < first_of year month"
  proof -
    from that fl have "min today (last_of year month) = today" by (auto simp: min_def)
    moreover from that have "\<not> first_of year month \<le> today" by simp
    ultimately show ?thesis using cs by (simp add: spec_current_streak_def walk_count_before)
  qed
  from after before show ?thesis by blast
qed

theorem streak_start_outside_month_witness:
  "get_habits 2024 2 (2024, 1, 15) ex_store = Inr (projr (get_habits 2024 2 (2024, 1, 15) ex_store)) \<and>
   wf_store ex_store \<and> 1 < length (habits ex_store) \<and> (2024, 1, 15) < first_of 2024 2 \<and>
   \<not> last_of 2024 2 < (2024, 1, 15) \<and>
   v_current_streak (s_habits (projr (get_habits 2024 2 (2024, 1, 15) ex_store)) ! 1) = 0"
proof -
  have i: "1 < length (habits ex_store)" by (simp add: ex_store_def)
  have lt: "(2024, 1, 15) < first_of 2024 2" by (simp add: first_of_def)
  have nl: "\<not> last_of 2024 2 < (2024, 1, 15)" by (simp add: last_of_def)
  from streak_start_outside_month[OF ex_fetch_before ex_store_wf i] lt nl ex_fetch_before ex_store_wf i
  show ?thesis by simp
qed

text \<open>
  C4 as stated, with the walk started at the month's last day also when today is before
  the month, fails: seen from 15 January 2024, February 2024 with its last day completed
  has backward-walk count 1 from the last day, and the handler reports 0.
\<close>

theorem streak_start_outside_month_counterexample:
  "get_habits 2024 2 (2024, 1, 15) ex_store = Inr (projr (get_habits 2024 2 (2024, 1, 15) ex_store)) \<and>
   wf_store ex_store \<and> 1 < length (habits ex_store) \<and>
   (2024, 1, 15) < first_of 2024 2 \<and>
   v_current_streak (s_habits (projr (get_habits 2024 2 (2024, 1, 15) ex_store)) ! 1) = 0 \<and>
   walk_count (first_of 2024 2) (last_of 2024 2) (completed_on ex_store (h_id (habits ex_store ! 1))) = 1"
proof -
  have i: "1 < length (habits ex_store)" by (simp add: ex_store_def)
  have h: "h_id (habits ex_store ! 1) = 2" by (simp add: ex_store_def)
  have lt: "(2024, 1, 15) < first_of 2024 2" by (simp add: first_of_def)
  have "min (2024, 1, 15) (last_of 2024 2) = (2024, 1, 15)"
    by (simp add: last_of_def min_def)
  with lt have "spec_current_streak (first_of 2024 2) (last_of 2024 2) (2024, 1, 15) (completed_on ex_store 2) = 0"
    by (simp add: spec_current_streak_def walk_count_before)
  with get_habits_current_streak[OF ex_fetch_before ex_store_wf i] h
  have "v_current_streak (s_habits (projr (get_habits 2024 2 (2024, 1, 15) ex_store)) ! 1) = 0" by simp
  with ex_fetch_before ex_store_wf i lt h ex_walk_last show ?thesis by simp
qed

text \<open>
C9: for every habit and every target month, the current streak of a returned month
  summary is at most the best streak returned for the same habit: the days counted by the
  backward walk are completed days of the month and form one of the runs over which the
  best streak is the maximum.
\<close>

theorem current_streak_le_best_streak:
  assumes "get_habits year month today st = Inr r" and "wf_store st" and "i < length (habits st)"
  shows "v_current_streak (s_habits r ! i) \<le> v_best_streak (s_habits r ! i)"
proof (cases "first_of year month \<le> min today (last_of year month)")
  case False
  with get_habits_current_streak[OF assms] show ?thesis
    by (simp add: spec_current_streak_def walk_count_before)
next
  case True
  let ?done = "completed_on st (h_id (habits st ! i))"
  let ?s = "min today (last_of year month)"
  from True have f: "(nat year, nat month, Suc 0) \<le> ?s" by (simp add: first_of_def)
  have "?s \<le> last_of year month" by simp
  then have l: "?s \<le> (nat year, nat month, monthrange (nat year) (nat month))"
    by (simp only: last_of_def)
  from walk_count_is_run[OF f l, of ?done]
  obtain a where "is_run ?done (nat year) (nat month) a
      (spec_current_streak (first_of year month) (last_of year month) today ?done)"
    by (auto simp: spec_current_streak_def first_of_def)
  with get_habits_best_streak[OF assms] get_habits_current_streak[OF assms] show ?thesis by simp
qed

theorem current_streak_le_best_streak_witness:
  "get_habits 2024 2 (2024, 2, 5) ex_store = Inr (projr (get_habits 2024 2 (2024, 2, 5) ex_store)) \<and>
   wf_store ex_store \<and> 0 < length (habits ex_store) \<and>
   v_current_streak (s_habits (projr (get_habits 2024 2 (2024, 2, 5) ex_store)) ! 0)
     \<le> v_best_streak (s_habits (projr (get_habits 2024 2 (2024, 2, 5) ex_store)) ! 0)"
proof -
  have i: "0 < length (habits ex_store)" by (simp add: ex_store_def)
  from current_streak_le_best_streak[OF ex_fetch ex_store_wf i] ex_fetch ex_store_wf i
  show ?thesis by simp
qed

text \<open>
C5: the streaks read no completion outside the target month. For two stores with the
  same habits whose completion sets agree on every date from the first to the last day of
  the target month, a month summary returned for the one is matched by a month summary
  returned for the other with the same habit entries, hence the same current streak and
  the same best streak for every habit.
\<close>

theorem streaks_depend_on_month_only:
  assumes g1: "get_habits year month today st1 = Inr r1"
    and wf1: "wf_store st1" and wf2: "wf_store st2"
    and hs: "habits st2 = habits st1"
    and agree: "\<forall>hid d. first_of year month \<le> d \<and> d \<le> last_of year month
                  \<longrightarrow> completed_on st2 hid d = completed_on st1 hid d"
  shows "\<exists>r2. get_habits year month today st2 = Inr r2 \<and> s_habits r2 = s_habits r1"
proof -
  let ?f = "first_of year month" and ?l = "last_of year month"
  from get_habits_Inr[OF g1] obtain hst where
    v: "valid_ym year month" and
    hl: "habits_loop st1 ?f ?l today (habits st1) [] Map.empty = Inr (s_completions r1, hst)" and
    sh: "s_habits r1 = map (habit_entry hst) (habits st1)" and
    dl: "daily_loop (s_completions r1) (length (habits st1)) ?f ?l [] = Inr (s_daily_stats r1)"
    by blast
  have mem: "\<forall>d. ?f \<le> d \<and> d \<le> ?l \<longrightarrow> (d \<in> set (habit_dates st1 hid) \<longleftrightarrow> d \<in> set (habit_dates st2 hid))" for hid
    using agree by (simp add: set_habit_dates)
  have "\<forall>h \<in> set (habits st1).
      current_streak_of ?f ?l today (habit_dates st1 (h_id h)) = current_streak_of ?f ?l today (habit_dates st2 (h_id h)) \<and>
      best_streak_of ?f ?l (habit_dates st1 (h_id h)) = best_streak_of ?f ?l (habit_dates st2 (h_id h))"
    using current_streak_of_cong[OF mem]
      best_streak_of_cong[OF mem distinct_habit_dates[OF wf1] distinct_habit_dates[OF wf2]]
    by blast
  from habits_loop_cong[OF this hl, of "[]"] obtain cd2 where
    hl2: "habits_loop st2 ?f ?l today (habits st2) [] Map.empty = Inr (cd2, hst)"
    using hs by auto
  from v have "1 \<le> nat month" "nat month \<le> 12" by (auto simp: valid_ym_def)
  from monthrange_bounds[OF this, of "nat year"] have m1: "Suc 0 \<le> monthrange (nat year) (nat month)" by simp
  from daily_loop_month[OF m1, of "s_completions r1" "length (habits st1)" "[]"] dl
  have ok: "nat month < 12 \<or> nat year < 9999"
    by (auto simp: first_of_def last_of_def split: if_splits)
  from daily_loop_month[OF m1, of cd2 "length (habits st2)" "[]"] ok
  obtain ds2 where "daily_loop cd2 (length (habits st2)) ?f ?l [] = Inr ds2"
    by (auto simp: first_of_def last_of_def)
  with hl2 v sh hs show ?thesis by (simp add: get_habits_unfold)
qed

theorem streaks_depend_on_month_only_witness:
  "get_habits 2024 2 (2024, 2, 5) ex_store = Inr (projr (get_habits 2024 2 (2024, 2, 5) ex_store)) \<and>
   wf_store ex_store \<and> wf_store ex_store2 \<and> habits ex_store2 = habits ex_store \<and>
   completions ex_store2 \<noteq> completions ex_store \<and>
   (\<exists>r2. get_habits 2024 2 (2024, 2, 5) ex_store2 = Inr r2 \<and>
         s_habits r2 = s_habits (projr (get_habits 2024 2 (2024, 2, 5) ex_store)))"
proof -
  have wf2: "wf_store ex_store2" by (simp add: wf_store_def ex_store2_def ex_store_def row_key_def)
  have hs: "habits ex_store2 = habits ex_store" by (simp add: ex_store2_def)
  have ne: "completions ex_store2 \<noteq> completions ex_store" by (simp add: ex_store2_def ex_store_def)
  have agree: "\<forall>hid d. first_of 2024 2 \<le> d \<and> d \<le> last_of 2024 2
                  \<longrightarrow> completed_on ex_store2 hid d = completed_on ex_store hid d"
  proof (intro allI impI)
    fix hid :: nat and d :: date
    assume "first_of 2024 2 \<le> d \<and> d \<le> last_of 2024 2"
    then have "(2024, 2, Suc 0) \<le> d \<and> d \<le> (2024, 2, monthrange 2024 2)"
      by (simp add: first_of_def last_of_def)
    with in_month_iff[of 2024 2 d "monthrange 2024 2"] obtain k where d: "d = (2024, 2, k)" by blast
    show "completed_on ex_store2 hid d = completed_on ex_store hid d"
      unfolding d by (simp add: completed_on_def ex_store2_def ex_store_def) blast
  qed
  from streaks_depend_on_month_only[OF ex_fetch ex_store_wf wf2 hs agree] ex_fetch ex_store_wf wf2 hs ne
  show ?thesis by simp
qed

end
